theory Spec2Isabelle
  imports Main "HOL-Library.Sublist"
begin

section \<open>Stage selection state machine of server.js\<close>

text \<open>
  The server keeps one state object per match. The catalog of stage ids
  (\<open>stageIds\<close>, read from data/stages.json at start-up) is a parameter \<open>cat\<close> of
  every function that reads it, and the clock \<open>Date.now()\<close> is a parameter \<open>now\<close>.
  Stage ids, modes and match ids are strings; a payload field that is absent or is
  not a string compares unequal to every string, so it behaves as a string outside
  the catalog and outside the two modes.
\<close>

subsection \<open>Data\<close>

datatype phase = WINNER_BAN | LOSER_BAN | WINNER_PICK | LOSER_PICK | DONE

datatype action_kind = BAN | PICK | FORCE_PHASE

text \<open>A history entry \<open>{action, stageId, prevPhase}\<close>; FORCE_PHASE entries carry no stage id.\<close>

record entry =
  action :: action_kind
  stageId :: "string option"
  prevPhase :: phase

text \<open>
  The state object of \<open>createInitialState\<close>. \<open>history\<close> is a JS array used as a stack:
  \<open>push\<close> appends at the end and \<open>pop\<close> takes the last element.
\<close>

record state =
  mode :: string
  phase :: phase
  bans :: "string list"
  pick :: "string option"
  history :: "entry list"

text \<open>
  The error strings of the handlers, one constructor per message; \<open>error_text\<close> gives
  the string the server sends.
\<close>

datatype error =
    InvalidItem string
  | AlreadyBanned string
  | WrongPhase action_kind phase
  | QuotaExhausted
  | BannedItem string
  | AlreadyPicked
  | NothingToUndo
  | InvalidMode string
  | CannotAdvance
  | UnknownAction string

fun phase_name :: "phase \<Rightarrow> string" where
  "phase_name WINNER_BAN = ''WINNER_BAN''"
| "phase_name LOSER_BAN = ''LOSER_BAN''"
| "phase_name WINNER_PICK = ''WINNER_PICK''"
| "phase_name LOSER_PICK = ''LOSER_PICK''"
| "phase_name DONE = ''DONE''"

fun error_text :: "error \<Rightarrow> string" where
  "error_text (InvalidItem sid) = ''Invalid stage: '' @ sid"
| "error_text (AlreadyBanned sid) = ''Stage already banned: '' @ sid"
| "error_text (WrongPhase BAN ph) = ''Cannot ban in phase: '' @ phase_name ph"
| "error_text (WrongPhase k ph) = ''Cannot pick in phase: '' @ phase_name ph"
| "error_text QuotaExhausted = ''No bans remaining in this phase''"
| "error_text (BannedItem sid) = ''Cannot pick banned stage: '' @ sid"
| "error_text AlreadyPicked = ''Already picked''"
| "error_text NothingToUndo = ''Nothing to undo''"
| "error_text (InvalidMode m) = ''Invalid mode: '' @ m"
| "error_text CannotAdvance = ''Cannot advance phase''"
| "error_text (UnknownAction t) = ''Unknown action: '' @ t"

text \<open>The discrete event \<open>{type, stageId, ts}\<close> returned by a successful ban or pick.\<close>

datatype event = Event action_kind string nat

text \<open>
  The object a handler returns: \<open>{ok, error}\<close>, with \<open>event\<close> on a successful ban or
  pick and \<open>newState\<close> on a successful mode change.
\<close>

record result =
  ok :: bool
  error :: "error option"
  event :: "event option"
  newState :: "state option"

definition failure :: "error \<Rightarrow> result" where
  "failure e = \<lparr>ok = False, error = Some e, event = None, newState = None\<rparr>"

definition success :: result where
  "success = \<lparr>ok = True, error = None, event = None, newState = None\<rparr>"

definition success_event :: "event \<Rightarrow> result" where
  "success_event ev = \<lparr>ok = True, error = None, event = Some ev, newState = None\<rparr>"

definition success_state :: "state \<Rightarrow> result" where
  "success_state s = \<lparr>ok = True, error = None, event = None, newState = Some s\<rparr>"

text \<open>
  JS truthiness of \<open>state.pick\<close>, which is \<open>null\<close> or a string: \<open>null\<close> and the empty
  string are falsy.
\<close>

fun truthy :: "string option \<Rightarrow> bool" where
  "truthy None = False"
| "truthy (Some s) = (s \<noteq> [])"

subsection \<open>State helpers\<close>

definition createInitialState :: "string \<Rightarrow> state" where
  "createInitialState m =
     \<lparr>mode = m, phase = WINNER_BAN, bans = [], pick = None, history = []\<rparr>"

definition getAvailableStages :: "string list \<Rightarrow> state \<Rightarrow> string list" where
  "getAvailableStages cat s = filter (\<lambda>i. i \<notin> set (bans s)) cat"

definition getBansRemaining :: "state \<Rightarrow> int" where
  "getBansRemaining s =
     (if phase s = WINNER_BAN then 3 - int (length (bans s))
      else if mode s = ''G1'' \<and> phase s = LOSER_BAN then 7 - int (length (bans s))
      else 0)"

definition getPicksRemaining :: "state \<Rightarrow> int" where
  "getPicksRemaining s =
     (if phase s = WINNER_PICK \<or> phase s = LOSER_PICK
      then (if truthy (pick s) then 0 else 1)
      else 0)"

definition advancePhase :: "state \<Rightarrow> state" where
  "advancePhase s =
     (if mode s = ''G1'' then
        (if phase s = WINNER_BAN \<and> 3 \<le> length (bans s) then s\<lparr>phase := LOSER_BAN\<rparr>
         else if phase s = LOSER_BAN \<and> 7 \<le> length (bans s) then s\<lparr>phase := WINNER_PICK\<rparr>
         else if phase s = WINNER_PICK \<and> truthy (pick s) then s\<lparr>phase := DONE\<rparr>
         else s)
      else
        (if phase s = WINNER_BAN \<and> 3 \<le> length (bans s) then s\<lparr>phase := LOSER_PICK\<rparr>
         else if phase s = LOSER_PICK \<and> truthy (pick s) then s\<lparr>phase := DONE\<rparr>
         else s))"

subsection \<open>Action handlers\<close>

text \<open>
  A handler mutates the state object it is given and returns a result object; the
  model returns the result together with the state after the call.
\<close>

definition handleBan :: "string list \<Rightarrow> nat \<Rightarrow> state \<Rightarrow> string \<Rightarrow> result \<times> state" where
  "handleBan cat now s sid =
     (if sid \<notin> set cat then (failure (InvalidItem sid), s)
      else if sid \<in> set (bans s) then (failure (AlreadyBanned sid), s)
      else if phase s \<noteq> WINNER_BAN \<and> phase s \<noteq> LOSER_BAN
        then (failure (WrongPhase BAN (phase s)), s)
      else if getBansRemaining s \<le> 0 then (failure QuotaExhausted, s)
      else
        (let prev = phase s;
             s1 = s\<lparr>bans := bans s @ [sid]\<rparr>;
             s2 = s1\<lparr>history := history s1 @
                    [\<lparr>action = BAN, stageId = Some sid, prevPhase = prev\<rparr>]\<rparr>
         in (success_event (Event BAN sid now), advancePhase s2)))"

definition handlePick :: "string list \<Rightarrow> nat \<Rightarrow> state \<Rightarrow> string \<Rightarrow> result \<times> state" where
  "handlePick cat now s sid =
     (if sid \<notin> set cat then (failure (InvalidItem sid), s)
      else if sid \<in> set (bans s) then (failure (BannedItem sid), s)
      else if phase s \<noteq> WINNER_PICK \<and> phase s \<noteq> LOSER_PICK
        then (failure (WrongPhase PICK (phase s)), s)
      else if truthy (pick s) then (failure AlreadyPicked, s)
      else
        (let prev = phase s;
             s1 = s\<lparr>pick := Some sid\<rparr>;
             s2 = s1\<lparr>history := history s1 @
                    [\<lparr>action = PICK, stageId = Some sid, prevPhase = prev\<rparr>]\<rparr>
         in (success_event (Event PICK sid now), advancePhase s2)))"

definition handleUndo :: "state \<Rightarrow> result \<times> state" where
  "handleUndo s =
     (if length (history s) = 0 then (failure NothingToUndo, s)
      else
        (let lastAction = last (history s);
             s1 = s\<lparr>history := butlast (history s)\<rparr>;
             s2 = (if action lastAction = BAN
                   then s1\<lparr>bans := filter (\<lambda>i. Some i \<noteq> stageId lastAction) (bans s1)\<rparr>
                   else if action lastAction = PICK then s1\<lparr>pick := None\<rparr>
                   else s1)
         in (success, s2\<lparr>phase := prevPhase lastAction\<rparr>)))"

definition handleSetMode :: "state \<Rightarrow> string \<Rightarrow> result" where
  "handleSetMode s m =
     (if m \<noteq> ''G1'' \<and> m \<noteq> ''G2PLUS'' then failure (InvalidMode m)
      else success_state (createInitialState m))"

text \<open>
  The table \<open>transitions[mode]?.[phase]\<close> of \<open>handleForceNextPhase\<close>; \<open>None\<close> is
  \<open>undefined\<close>, the value of a lookup with a mode or a phase that has no row.
\<close>

definition transitions :: "string \<Rightarrow> phase \<Rightarrow> phase option" where
  "transitions m ph =
     (if m = ''G1'' then
        (case ph of
           WINNER_BAN \<Rightarrow> Some LOSER_BAN
         | LOSER_BAN \<Rightarrow> Some WINNER_PICK
         | WINNER_PICK \<Rightarrow> Some DONE
         | DONE \<Rightarrow> Some DONE
         | LOSER_PICK \<Rightarrow> None)
      else if m = ''G2PLUS'' then
        (case ph of
           WINNER_BAN \<Rightarrow> Some LOSER_PICK
         | LOSER_PICK \<Rightarrow> Some DONE
         | DONE \<Rightarrow> Some DONE
         | LOSER_BAN \<Rightarrow> None
         | WINNER_PICK \<Rightarrow> None)
      else None)"

definition handleForceNextPhase :: "state \<Rightarrow> result \<times> state" where
  "handleForceNextPhase s =
     (let prev = phase s in
      case transitions (mode s) (phase s) of
        None \<Rightarrow> (failure CannotAdvance, s)
      | Some nextPhase \<Rightarrow>
          (if nextPhase = phase s then (failure CannotAdvance, s)
           else
             (let s1 = s\<lparr>phase := nextPhase\<rparr>
              in (success, s1\<lparr>history := history s1 @
                    [\<lparr>action = FORCE_PHASE, stageId = None, prevPhase = prev\<rparr>]\<rparr>))))"

subsection \<open>Match state store\<close>

text \<open>
  \<open>matchStates\<close> is a Map from match id to state object. \<open>getState\<close> creates the
  entry on first reference, so it returns the store as well.
\<close>

type_synonym store = "string \<rightharpoonup> state"

definition getState :: "store \<Rightarrow> string \<Rightarrow> state \<times> store" where
  "getState st mid =
     (case st mid of
        None \<Rightarrow> (createInitialState ''G1'', st(mid \<mapsto> createInitialState ''G1''))
      | Some s \<Rightarrow> (s, st))"

definition handleReset :: "store \<Rightarrow> string \<Rightarrow> result \<times> store" where
  "handleReset st mid =
     (let (s, st1) = getState st mid;
          newState = createInitialState (mode s)
      in (success, st1(mid \<mapsto> newState)))"

subsection \<open>Computed state\<close>

text \<open>The object sent to clients; its fields carry the prefix \<open>v_\<close> here.\<close>

record view =
  v_matchId :: string
  v_mode :: string
  v_phase :: phase
  v_bans :: "string list"
  v_pick :: "string option"
  v_available :: "string list"
  v_bansRemaining :: int
  v_picksRemaining :: int
  v_canUndo :: bool

definition getComputedState :: "string list \<Rightarrow> store \<Rightarrow> string \<Rightarrow> view \<times> store" where
  "getComputedState cat st mid =
     (let (s, st1) = getState st mid;
          available = getAvailableStages cat s
      in (\<lparr>v_matchId = mid, v_mode = mode s, v_phase = phase s, v_bans = bans s,
           v_pick = pick s, v_available = available,
           v_bansRemaining = getBansRemaining s,
           v_picksRemaining = getPicksRemaining s,
           v_canUndo = (0 < length (history s))\<rparr>, st1))"

subsection \<open>Socket handlers\<close>

text \<open>The payload \<open>{matchId, type, stageId, mode}\<close> of an \<open>action\<close> message.\<close>

record request =
  r_matchId :: "string option"
  r_type :: string
  r_stageId :: string
  r_mode :: string

text \<open>
  What the server emits: \<open>action:result\<close> to the sending socket, \<open>state:update\<close> and
  \<open>event:push\<close> to the room of a match.
\<close>

datatype emit =
    ActionResult string bool "error option"
  | StateUpdate string view
  | EventPush string event

text \<open>\<open>matchId || currentMatchId || 'default'\<close>\<close>

definition resolveMatchId :: "string option \<Rightarrow> string option \<Rightarrow> string" where
  "resolveMatchId m c =
     (case m of
        Some x \<Rightarrow> (if x \<noteq> [] then x
                   else (case c of Some y \<Rightarrow> (if y \<noteq> [] then y else ''default'')
                         | None \<Rightarrow> ''default''))
      | None \<Rightarrow> (case c of Some y \<Rightarrow> (if y \<noteq> [] then y else ''default'')
                 | None \<Rightarrow> ''default''))"

text \<open>
  The \<open>switch\<close> of the action handler. The handlers mutate the object held in the
  store, so the store after the call holds the state they return.
\<close>

definition route :: "string list \<Rightarrow> nat \<Rightarrow> store \<Rightarrow> string \<Rightarrow> state \<Rightarrow> request
    \<Rightarrow> result \<times> store" where
  "route cat now st1 matchId s req =
     (if r_type req = ''BAN'' then
        (let (r, s') = handleBan cat now s (r_stageId req) in (r, st1(matchId \<mapsto> s')))
      else if r_type req = ''PICK'' then
        (let (r, s') = handlePick cat now s (r_stageId req) in (r, st1(matchId \<mapsto> s')))
      else if r_type req = ''UNDO'' then
        (let (r, s') = handleUndo s in (r, st1(matchId \<mapsto> s')))
      else if r_type req = ''RESET'' then handleReset st1 matchId
      else if r_type req = ''SET_MODE'' then
        (let r = handleSetMode s (r_mode req) in
         case newState r of
           Some ns \<Rightarrow> (if ok r then (r, st1(matchId \<mapsto> ns)) else (r, st1))
         | None \<Rightarrow> (r, st1))
      else if r_type req = ''FORCE_NEXT_PHASE'' then
        (let (r, s') = handleForceNextPhase s in (r, st1(matchId \<mapsto> s')))
      else (failure (UnknownAction (r_type req)), st1))"

text \<open>
  \<open>socket.on('action', ...)\<close>: the store after the message and the messages emitted,
  in order. \<open>cur\<close> is the socket's \<open>currentMatchId\<close>.
\<close>

definition onAction :: "string list \<Rightarrow> nat \<Rightarrow> string option \<Rightarrow> store \<Rightarrow> request
    \<Rightarrow> store \<times> emit list" where
  "onAction cat now cur st req =
     (let matchId = resolveMatchId (r_matchId req) cur;
          (s, st1) = getState st matchId;
          (r, st2) = route cat now st1 matchId s req;
          out = [ActionResult (r_type req) (ok r) (error r)]
      in if ok r then
           (let (v, st3) = getComputedState cat st2 matchId
            in (st3, out @ [StateUpdate matchId v] @
                  (case event r of Some ev \<Rightarrow> [EventPush matchId ev] | None \<Rightarrow> [])))
         else (st2, out))"

text \<open>
  \<open>socket.on('join', ...)\<close> and \<open>GET /api/state\<close> both call \<open>getComputedState\<close>, which
  may create the entry of the match.
\<close>

datatype message =
    Join "string option"
  | Action nat "string option" request

definition onJoin :: "string list \<Rightarrow> store \<Rightarrow> string option \<Rightarrow> store \<times> emit list" where
  "onJoin cat st m =
     (let matchId = resolveMatchId m None;
          (v, st1) = getComputedState cat st matchId
      in (st1, [StateUpdate matchId v]))"

fun deliver :: "string list \<Rightarrow> store \<Rightarrow> message \<Rightarrow> store" where
  "deliver cat st (Join m) = fst (onJoin cat st m)"
| "deliver cat st (Action now cur req) = fst (onAction cat now cur st req)"

text \<open>
  The store after a sequence of messages. A new process starts from the empty store, so
  the reachable states are those held by \<open>run cat Map.empty ms\<close> for some \<open>ms\<close>.
\<close>

fun run :: "string list \<Rightarrow> store \<Rightarrow> message list \<Rightarrow> store" where
  "run cat st [] = st"
| "run cat st (m # ms) = run cat (deliver cat st m) ms"

subsection \<open>Predicates on states and sample inputs\<close>

text \<open>
  The invariant of the data model: no id twice in \<open>bans\<close>, at most 7 bans in mode G1 and
  at most 3 in mode G2PLUS, and a pick that is set is not banned.
\<close>

definition fsm_invariant :: "state \<Rightarrow> bool" where
  "fsm_invariant s \<longleftrightarrow>
     distinct (bans s) \<and>
     ((mode s = ''G1'' \<and> length (bans s) \<le> 7) \<or>
      (mode s = ''G2PLUS'' \<and> length (bans s) \<le> 3)) \<and>
     (case pick s of None \<Rightarrow> True | Some p \<Rightarrow> p \<notin> set (bans s))"

text \<open>
  On a history read from its top: a PICK entry is found before any entry that was
  recorded in a ban phase.
\<close>

fun pick_recorded :: "entry list \<Rightarrow> bool" where
  "pick_recorded [] = False"
| "pick_recorded (e # es) =
     (prevPhase e \<noteq> WINNER_BAN \<and> prevPhase e \<noteq> LOSER_BAN \<and>
      (action e = PICK \<or> pick_recorded es))"

text \<open>
  The inductive strengthening: bans and pick come from the catalog; while a pick is set
  the phase is not a ban phase and undoing cannot reach a ban phase without clearing the
  pick; outside mode G1 the phase LOSER_BAN never occurs, now or in the history.
\<close>

definition strong_invariant :: "string list \<Rightarrow> state \<Rightarrow> bool" where
  "strong_invariant cat s \<longleftrightarrow>
     fsm_invariant s \<and> set (bans s) \<subseteq> set cat \<and>
     (case pick s of None \<Rightarrow> True
      | Some p \<Rightarrow> p \<in> set cat \<and> phase s \<noteq> WINNER_BAN \<and> phase s \<noteq> LOSER_BAN \<and>
          pick_recorded (rev (history s))) \<and>
     (mode s = ''G1'' \<or>
        (phase s \<noteq> LOSER_BAN \<and> list_all (\<lambda>e. prevPhase e \<noteq> LOSER_BAN) (history s)))"

definition store_ok :: "string list \<Rightarrow> store \<Rightarrow> bool" where
  "store_ok cat st \<longleftrightarrow> (\<forall>mid s. st mid = Some s \<longrightarrow> strong_invariant cat s)"

text \<open>
  Banning a list of ids one after the other at the same state object, stopping at the
  first ban that is refused.
\<close>

fun ban_seq :: "string list \<Rightarrow> nat \<Rightarrow> state \<Rightarrow> string list \<Rightarrow> state option" where
  "ban_seq cat now s [] = Some s"
| "ban_seq cat now s (b # bs) =
     (if ok (fst (handleBan cat now s b))
      then ban_seq cat now (snd (handleBan cat now s b)) bs
      else None)"

text \<open>The phase that the ban count alone determines, per mode.\<close>

definition phase_after_bans :: "string \<Rightarrow> nat \<Rightarrow> phase" where
  "phase_after_bans m n =
     (if m = ''G1'' then (if n < 3 then WINNER_BAN else if n < 7 then LOSER_BAN else WINNER_PICK)
      else (if n < 3 then WINNER_BAN else LOSER_PICK))"

text \<open>
  An undo result restores a state: the undo succeeded and \<open>bans\<close>, \<open>pick\<close> and \<open>phase\<close>
  are those of the state.
\<close>

definition restores :: "state \<Rightarrow> result \<times> state \<Rightarrow> bool" where
  "restores s u \<longleftrightarrow>
     ok (fst u) \<and> bans (snd u) = bans s \<and> pick (snd u) = pick s \<and> phase (snd u) = phase s"

text \<open>The total number of bans of a mode: 7 in G1 (3 + 4), 3 otherwise.\<close>

definition ban_quota :: "string \<Rightarrow> nat" where
  "ban_quota m = (if m = ''G1'' then 7 else 3)"

text \<open>Sample inputs: a catalog of nine stages and requests without a match id.\<close>

definition sample_catalog :: "string list" where
  "sample_catalog =
     [''bf'', ''sbf'', ''fd'', ''sv'', ''ps2'', ''tc'', ''ys'', ''hb'', ''kalos'']"

definition sample_bans :: "string list" where
  "sample_bans = [''bf'', ''sbf'', ''fd'', ''sv'', ''ps2'', ''tc'', ''ys'']"

text \<open>The state after the seven bans of \<open>sample_bans\<close> at a fresh G1 state.\<close>

definition sample_banned_state :: state where
  "sample_banned_state =
     \<lparr>mode = ''G1'', phase = WINNER_PICK, bans = sample_bans, pick = None,
      history =
        [\<lparr>action = BAN, stageId = Some ''bf'', prevPhase = WINNER_BAN\<rparr>,
         \<lparr>action = BAN, stageId = Some ''sbf'', prevPhase = WINNER_BAN\<rparr>,
         \<lparr>action = BAN, stageId = Some ''fd'', prevPhase = WINNER_BAN\<rparr>,
         \<lparr>action = BAN, stageId = Some ''sv'', prevPhase = LOSER_BAN\<rparr>,
         \<lparr>action = BAN, stageId = Some ''ps2'', prevPhase = LOSER_BAN\<rparr>,
         \<lparr>action = BAN, stageId = Some ''tc'', prevPhase = LOSER_BAN\<rparr>,
         \<lparr>action = BAN, stageId = Some ''ys'', prevPhase = LOSER_BAN\<rparr>]\<rparr>"

text \<open>The state after two forced phase changes at a fresh G1 state.\<close>

definition sample_forced_state :: state where
  "sample_forced_state =
     \<lparr>mode = ''G1'', phase = WINNER_PICK, bans = [], pick = None,
      history =
        [\<lparr>action = FORCE_PHASE, stageId = None, prevPhase = WINNER_BAN\<rparr>,
         \<lparr>action = FORCE_PHASE, stageId = None, prevPhase = LOSER_BAN\<rparr>]\<rparr>"

definition ban_request :: "string \<Rightarrow> request" where
  "ban_request sid = \<lparr>r_matchId = None, r_type = ''BAN'', r_stageId = sid, r_mode = []\<rparr>"

definition pick_request :: "string \<Rightarrow> request" where
  "pick_request sid = \<lparr>r_matchId = None, r_type = ''PICK'', r_stageId = sid, r_mode = []\<rparr>"

definition plain_request :: "string \<Rightarrow> request" where
  "plain_request t = \<lparr>r_matchId = None, r_type = t, r_stageId = [], r_mode = []\<rparr>"

definition mode_request :: "string \<Rightarrow> request" where
  "mode_request m = \<lparr>r_matchId = None, r_type = ''SET_MODE'', r_stageId = [], r_mode = m\<rparr>"

section \<open>Properties\<close>

subsection \<open>The invariant is kept by every handler\<close>

lemma strong_init:
  "m = ''G1'' \<or> m = ''G2PLUS'' \<Longrightarrow> strong_invariant cat (createInitialState m)"
  by (auto simp: strong_invariant_def fsm_invariant_def createInitialState_def)

lemma strong_ban:
  assumes "strong_invariant cat s"
  shows "strong_invariant cat (snd (handleBan cat now s sid))"
  using assms
  by (auto simp: strong_invariant_def fsm_invariant_def handleBan_def getBansRemaining_def
      advancePhase_def Let_def split: option.splits if_splits)

lemma strong_pick:
  assumes "strong_invariant cat s"
  shows "strong_invariant cat (snd (handlePick cat now s sid))"
  using assms
  by (auto simp: strong_invariant_def fsm_invariant_def handlePick_def
      advancePhase_def Let_def split: option.splits if_splits)

lemma strong_force:
  assumes "strong_invariant cat s"
  shows "strong_invariant cat (snd (handleForceNextPhase s))"
  using assms
  by (auto simp: strong_invariant_def fsm_invariant_def handleForceNextPhase_def
      transitions_def Let_def split: option.splits if_splits phase.splits)

lemma strong_undo:
  assumes "strong_invariant cat s"
  shows "strong_invariant cat (snd (handleUndo s))"
proof (cases "history s" rule: rev_cases)
  case Nil
  then show ?thesis using assms by (simp add: handleUndo_def)
next
  case (snoc h e)
  then show ?thesis using assms
    by (auto simp: strong_invariant_def fsm_invariant_def handleUndo_def Let_def list_all_iff
        split: option.splits if_splits intro: order_trans[OF length_filter_le]
        dest: in_set_butlastD)
qed

lemma strong_setmode:
  assumes "newState (handleSetMode s m) = Some ns"
  shows "strong_invariant cat ns"
  using assms strong_init[of m cat]
  by (auto simp: handleSetMode_def failure_def success_state_def split: if_splits)

lemma strong_mode: "strong_invariant cat s \<Longrightarrow> mode s = ''G1'' \<or> mode s = ''G2PLUS''"
  by (auto simp: strong_invariant_def fsm_invariant_def)

subsection \<open>The invariant holds in every store the server can reach\<close>

lemma store_ok_empty: "store_ok cat Map.empty"
  by (simp add: store_ok_def)

lemma store_ok_upd:
  "store_ok cat st \<Longrightarrow> strong_invariant cat s \<Longrightarrow> store_ok cat (st(mid \<mapsto> s))"
  by (simp add: store_ok_def)

lemma getState_ok:
  assumes "store_ok cat st" and "getState st mid = (s, st1)"
  shows "strong_invariant cat s \<and> store_ok cat st1"
proof (cases "st mid")
  case None
  have "strong_invariant cat (createInitialState ''G1'')" by (simp add: strong_init)
  with None assms show ?thesis
    by (auto simp: getState_def intro: store_ok_upd)
next
  case (Some a)
  with assms show ?thesis by (auto simp: getState_def store_ok_def)
qed

lemma handleReset_ok:
  assumes "store_ok cat st" and "handleReset st mid = (r, st1)"
  shows "store_ok cat st1"
proof -
  obtain s st0 where g: "getState st mid = (s, st0)" by (cases "getState st mid")
  from getState_ok[OF assms(1) g] have s: "strong_invariant cat s" and st0: "store_ok cat st0"
    by simp_all
  from s have "strong_invariant cat (createInitialState (mode s))"
    by (intro strong_init strong_mode)
  with st0 g assms(2) show ?thesis
    by (auto simp: handleReset_def Let_def intro: store_ok_upd)
qed

lemma route_ok:
  assumes "store_ok cat st1" and "strong_invariant cat s"
    and "route cat now st1 matchId s req = (r, st2)"
  shows "store_ok cat st2"
proof -
  have b: "strong_invariant cat (snd (handleBan cat now s (r_stageId req)))"
    by (rule strong_ban[OF assms(2)])
  have p: "strong_invariant cat (snd (handlePick cat now s (r_stageId req)))"
    by (rule strong_pick[OF assms(2)])
  have u: "strong_invariant cat (snd (handleUndo s))"
    by (rule strong_undo[OF assms(2)])
  have f: "strong_invariant cat (snd (handleForceNextPhase s))"
    by (rule strong_force[OF assms(2)])
  show ?thesis
    using assms(1,3) b p u f handleReset_ok[OF assms(1), of matchId]
      strong_setmode[of s "r_mode req" _ cat]
    by (auto simp: route_def Let_def split_beta intro!: store_ok_upd
        split: if_splits option.splits prod.splits)
qed

lemma getComputedState_store: "snd (getComputedState cat st mid) = snd (getState st mid)"
  by (simp add: getComputedState_def split_beta Let_def)

lemma onAction_ok:
  assumes "store_ok cat st"
  shows "store_ok cat (fst (onAction cat now cur st req))"
proof -
  define matchId where "matchId = resolveMatchId (r_matchId req) cur"
  obtain s st1 where g: "getState st matchId = (s, st1)" by (cases "getState st matchId")
  obtain r st2 where rt: "route cat now st1 matchId s req = (r, st2)"
    by (cases "route cat now st1 matchId s req")
  from getState_ok[OF assms g] have s: "strong_invariant cat s" and st1: "store_ok cat st1"
    by simp_all
  from route_ok[OF st1 s rt] have st2: "store_ok cat st2" .
  obtain s3 st3 where g3: "getState st2 matchId = (s3, st3)" by (cases "getState st2 matchId")
  from getState_ok[OF st2 g3] have st3: "store_ok cat st3" by simp
  have "fst (onAction cat now cur st req) = (if ok r then st3 else st2)"
    using g rt g3 getComputedState_store[of cat st2 matchId]
    by (simp add: onAction_def Let_def matchId_def[symmetric] split_beta)
  with st2 st3 show ?thesis by simp
qed

lemma onJoin_ok:
  assumes "store_ok cat st"
  shows "store_ok cat (fst (onJoin cat st m))"
proof -
  obtain s st1 where g: "getState st (resolveMatchId m None) = (s, st1)"
    by (cases "getState st (resolveMatchId m None)")
  from getState_ok[OF assms g] have "store_ok cat st1" by simp
  then show ?thesis
    using g getComputedState_store[of cat st "resolveMatchId m None"]
    by (simp add: onJoin_def Let_def split_beta)
qed

lemma deliver_ok: "store_ok cat st \<Longrightarrow> store_ok cat (deliver cat st msg)"
  by (cases msg) (simp_all add: onJoin_ok onAction_ok)

lemma run_ok: "store_ok cat st \<Longrightarrow> store_ok cat (run cat st ms)"
  by (induction ms arbitrary: st) (simp_all add: deliver_ok)

lemma reachable_strong:
  "run cat Map.empty ms mid = Some s \<Longrightarrow> strong_invariant cat s"
  using run_ok[OF store_ok_empty, of cat ms] by (simp add: store_ok_def)

lemma strong_fsm: "strong_invariant cat s \<Longrightarrow> fsm_invariant s"
  by (simp add: strong_invariant_def)

text \<open>
  C1. In every state that a sequence of messages can leave in the store, \<open>bans\<close> holds no
  id twice, holds at most 7 ids in mode G1 and at most 3 in mode G2PLUS, and a pick
  that is set is not in \<open>bans\<close>; the state after Ban, Pick, Undo, ForceAdvance, SetMode
  or Reset at such a state satisfies the same invariant.
\<close>

theorem fsm_invariant_reachable:
  assumes "run cat Map.empty ms mid = Some s"
  shows "fsm_invariant s \<and>
         fsm_invariant (snd (handleBan cat now s sid)) \<and>
         fsm_invariant (snd (handlePick cat now s sid)) \<and>
         fsm_invariant (snd (handleUndo s)) \<and>
         fsm_invariant (snd (handleForceNextPhase s)) \<and>
         (case newState (handleSetMode s m) of None \<Rightarrow> True | Some ns \<Rightarrow> fsm_invariant ns) \<and>
         fsm_invariant (createInitialState (mode s))"
proof -
  have st: "strong_invariant cat s" by (rule reachable_strong[OF assms])
  have "case newState (handleSetMode s m) of None \<Rightarrow> True | Some ns \<Rightarrow> fsm_invariant ns"
    by (auto split: option.splits dest: strong_setmode[where cat = cat] strong_fsm)
  moreover have "fsm_invariant (createInitialState (mode s))"
    using st by (intro strong_fsm[where cat = cat] strong_init strong_mode)
  ultimately show ?thesis
    using st strong_ban[OF st, of now sid] strong_pick[OF st, of now sid]
      strong_undo[OF st] strong_force[OF st]
    by (simp add: strong_fsm)
qed

theorem fsm_invariant_reachable_witness:
  "run sample_catalog Map.empty
     [Action 5 None (ban_request ''fd''), Action 6 None (ban_request ''fd'')] ''default''
     = Some \<lparr>mode = ''G1'', phase = WINNER_BAN, bans = [''fd''], pick = None,
         history = [\<lparr>action = BAN, stageId = Some ''fd'', prevPhase = WINNER_BAN\<rparr>]\<rparr> \<and>
   fsm_invariant \<lparr>mode = ''G1'', phase = WINNER_BAN, bans = [''fd''], pick = None,
         history = [\<lparr>action = BAN, stageId = Some ''fd'', prevPhase = WINNER_BAN\<rparr>]\<rparr> \<and>
   fsm_invariant (snd (handleBan sample_catalog 7
      \<lparr>mode = ''G1'', phase = WINNER_BAN, bans = [''fd''], pick = None,
         history = [\<lparr>action = BAN, stageId = Some ''fd'', prevPhase = WINNER_BAN\<rparr>]\<rparr> ''sv''))"
proof -
  have h: "run sample_catalog Map.empty
     [Action 5 None (ban_request ''fd''), Action 6 None (ban_request ''fd'')] ''default''
     = Some \<lparr>mode = ''G1'', phase = WINNER_BAN, bans = [''fd''], pick = None,
         history = [\<lparr>action = BAN, stageId = Some ''fd'', prevPhase = WINNER_BAN\<rparr>]\<rparr>"
    by (simp add: onAction_def resolveMatchId_def getState_def route_def ban_request_def
        handleBan_def getBansRemaining_def advancePhase_def createInitialState_def
        getComputedState_def success_event_def failure_def Let_def sample_catalog_def)
  from fsm_invariant_reachable[OF h, of 7 "''sv''"] h show ?thesis by simp
qed

subsection \<open>Undo\<close>

lemma filter_absent: "x \<notin> set xs \<Longrightarrow> filter (\<lambda>i. i \<noteq> x) xs = xs"
  by (induction xs) auto

lemma advancePhase_fields:
  "bans (advancePhase s) = bans s" "pick (advancePhase s) = pick s"
  "history (advancePhase s) = history s" "mode (advancePhase s) = mode s"
  by (simp_all add: advancePhase_def)

lemma ban_then_undo:
  assumes "ok (fst (handleBan cat now s sid))"
  shows "handleUndo (snd (handleBan cat now s sid)) = (success, s)"
proof -
  from assms have absent: "sid \<notin> set (bans s)"
    by (auto simp: handleBan_def failure_def split: if_splits)
  from assms have eq: "snd (handleBan cat now s sid) =
      advancePhase (s\<lparr>bans := bans s @ [sid], history := history s @
         [\<lparr>action = BAN, stageId = Some sid, prevPhase = phase s\<rparr>]\<rparr>)"
    by (auto simp: handleBan_def failure_def Let_def split: if_splits)
  show ?thesis
    unfolding eq
    by (simp add: handleUndo_def Let_def advancePhase_fields filter_absent[OF absent])
qed

lemma force_then_undo:
  assumes "ok (fst (handleForceNextPhase s))"
  shows "handleUndo (snd (handleForceNextPhase s)) = (success, s)"
  using assms
  by (auto simp: handleForceNextPhase_def handleUndo_def failure_def Let_def
      split: if_splits option.splits)

lemma pick_then_undo:
  assumes "ok (fst (handlePick cat now s sid))" and "pick s \<noteq> Some []"
  shows "handleUndo (snd (handlePick cat now s sid)) = (success, s)"
proof -
  from assms have none: "pick s = None"
    by (cases "pick s") (auto simp: handlePick_def failure_def split: if_splits)
  from assms have eq: "snd (handlePick cat now s sid) =
      advancePhase (s\<lparr>pick := Some sid, history := history s @
         [\<lparr>action = PICK, stageId = Some sid, prevPhase = phase s\<rparr>]\<rparr>)"
    by (auto simp: handlePick_def failure_def Let_def split: if_splits)
  show ?thesis
    unfolding eq using none
    by (simp add: handleUndo_def Let_def advancePhase_fields)
qed

lemma reachable_pick_nonempty:
  assumes "run cat Map.empty ms mid = Some s" and "[] \<notin> set cat"
  shows "pick s \<noteq> Some []"
  using reachable_strong[OF assms(1)] assms(2)
  by (auto simp: strong_invariant_def)

text \<open>
  C2. At every reachable state, a successful Ban, Pick or ForceAdvance followed by Undo
  gives a successful Undo after which \<open>bans\<close>, \<open>pick\<close> and \<open>phase\<close> are what they were
  before the operation. The catalog is taken to hold no empty id: the handlers test
  \<open>state.pick\<close> for truthiness, and the empty string is falsy.
\<close>

theorem undo_inverts_last_operation:
  assumes "run cat Map.empty ms mid = Some s" and "[] \<notin> set cat"
  shows "(ok (fst (handleBan cat now s sid)) \<longrightarrow>
            restores s (handleUndo (snd (handleBan cat now s sid)))) \<and>
         (ok (fst (handlePick cat now s sid)) \<longrightarrow>
            restores s (handleUndo (snd (handlePick cat now s sid)))) \<and>
         (ok (fst (handleForceNextPhase s)) \<longrightarrow>
            restores s (handleUndo (snd (handleForceNextPhase s))))"
  using reachable_pick_nonempty[OF assms]
  by (simp add: ban_then_undo pick_then_undo force_then_undo restores_def success_def)

theorem undo_inverts_last_operation_witness:
  "run sample_catalog Map.empty
     [Action 1 None (plain_request ''FORCE_NEXT_PHASE''),
      Action 2 None (plain_request ''FORCE_NEXT_PHASE'')] ''default''
     = Some sample_forced_state \<and>
   [] \<notin> set sample_catalog \<and>
   ok (fst (handlePick sample_catalog 3 sample_forced_state ''fd'')) \<and>
   restores sample_forced_state
     (handleUndo (snd (handlePick sample_catalog 3 sample_forced_state ''fd''))) \<and>
   ok (fst (handleForceNextPhase sample_forced_state)) \<and>
   restores sample_forced_state (handleUndo (snd (handleForceNextPhase sample_forced_state)))"
proof -
  have h: "run sample_catalog Map.empty
     [Action 1 None (plain_request ''FORCE_NEXT_PHASE''),
      Action 2 None (plain_request ''FORCE_NEXT_PHASE'')] ''default''
     = Some sample_forced_state"
    by (simp add: onAction_def resolveMatchId_def getState_def route_def plain_request_def
        handleForceNextPhase_def transitions_def createInitialState_def
        getComputedState_def success_def failure_def Let_def sample_forced_state_def)
  have c: "[] \<notin> set sample_catalog"
    by (simp add: sample_catalog_def)
  have p: "ok (fst (handlePick sample_catalog 3 sample_forced_state ''fd''))"
    by (simp add: handlePick_def sample_catalog_def sample_forced_state_def success_event_def)
  have f: "ok (fst (handleForceNextPhase sample_forced_state))"
    by (simp add: handleForceNextPhase_def transitions_def sample_forced_state_def success_def)
  from undo_inverts_last_operation[OF h c, where now = 3 and sid = "''fd''"] h c p f
  show ?thesis by simp
qed


subsection \<open>Phase progression from a fresh state\<close>

lemma ban_seq_snoc:
  "ban_seq cat now s (bs @ [b]) =
     (case ban_seq cat now s bs of None \<Rightarrow> None
      | Some s' \<Rightarrow> if ok (fst (handleBan cat now s' b))
                   then Some (snd (handleBan cat now s' b)) else None)"
  by (induction bs arbitrary: s) simp_all


lemma ban_step:
  assumes "phase s = phase_after_bans (mode s) (length (bans s))" and "pick s = None"
    and "ok (fst (handleBan cat now s b))"
  shows "mode (snd (handleBan cat now s b)) = mode s \<and>
         bans (snd (handleBan cat now s b)) = bans s @ [b] \<and>
         pick (snd (handleBan cat now s b)) = None \<and>
         phase (snd (handleBan cat now s b)) = phase_after_bans (mode s) (Suc (length (bans s))) \<and>
         Suc (length (bans s)) \<le> ban_quota (mode s) \<and> b \<in> set cat \<and> b \<notin> set (bans s)"
  using assms
  by (auto simp: handleBan_def failure_def Let_def advancePhase_def phase_after_bans_def
      getBansRemaining_def ban_quota_def split: if_splits)

lemma ban_step_ok:
  assumes "phase s = phase_after_bans (mode s) (length (bans s))"
    and "b \<in> set cat" and "b \<notin> set (bans s)" and "Suc (length (bans s)) \<le> ban_quota (mode s)"
  shows "ok (fst (handleBan cat now s b))"
  using assms
  by (auto simp: handleBan_def failure_def success_event_def Let_def phase_after_bans_def
      getBansRemaining_def ban_quota_def split: if_splits)

lemma ban_seq_fresh_Some:
  "ban_seq cat now (createInitialState m) bs = Some s \<Longrightarrow>
     mode s = m \<and> bans s = bs \<and> pick s = None \<and>
     phase s = phase_after_bans m (length bs) \<and> length bs \<le> ban_quota m \<and>
     distinct bs \<and> set bs \<subseteq> set cat"
proof (induction bs arbitrary: s rule: rev_induct)
  case Nil
  then show ?case by (auto simp: createInitialState_def phase_after_bans_def)
next
  case (snoc b bs)
  from snoc.prems obtain s0 where s0: "ban_seq cat now (createInitialState m) bs = Some s0"
    and okb: "ok (fst (handleBan cat now s0 b))" and s: "s = snd (handleBan cat now s0 b)"
    by (auto simp: ban_seq_snoc split: option.splits if_splits)
  from snoc.IH[OF s0] have ih: "mode s0 = m" "bans s0 = bs" "pick s0 = None"
    "phase s0 = phase_after_bans m (length bs)" "distinct bs" "set bs \<subseteq> set cat"
    by simp_all
  from ih have ph: "phase s0 = phase_after_bans (mode s0) (length (bans s0))" by simp
  from ban_step[OF ph ih(3) okb] ih s show ?case by simp
qed

lemma ban_seq_fresh_defined:
  assumes "distinct bs" and "set bs \<subseteq> set cat" and "length bs \<le> ban_quota m"
  shows "ban_seq cat now (createInitialState m) bs \<noteq> None"
  using assms
proof (induction bs rule: rev_induct)
  case Nil
  then show ?case by simp
next
  case (snoc b bs)
  then obtain s0 where s0: "ban_seq cat now (createInitialState m) bs = Some s0"
    by auto
  from ban_seq_fresh_Some[OF s0] have ih: "mode s0 = m" "bans s0 = bs"
    "phase s0 = phase_after_bans m (length bs)" by simp_all
  from ih have ph: "phase s0 = phase_after_bans (mode s0) (length (bans s0))" by simp
  have "ok (fst (handleBan cat now s0 b))"
    by (rule ban_step_ok[OF ph]) (use snoc.prems ih in auto)
  with s0 show ?case by (simp add: ban_seq_snoc)
qed

lemma pick_after_bans:
  assumes "phase s = WINNER_PICK \<and> mode s = ''G1'' \<or> phase s = LOSER_PICK \<and> mode s \<noteq> ''G1''"
    and "pick s = None"
  shows "ok (fst (handlePick cat t s p)) \<longleftrightarrow> p \<in> set cat \<and> p \<notin> set (bans s)"
    and "ok (fst (handlePick cat t s p)) \<Longrightarrow> p \<noteq> [] \<Longrightarrow> phase (snd (handlePick cat t s p)) = DONE"
  using assms
  by (auto simp: handlePick_def failure_def success_event_def Let_def advancePhase_def
      split: if_splits)

text \<open>
  C3. From a fresh G1 state, bans of distinct catalog ids succeed up to seven; after
  fewer than 3 successful bans the phase is still WINNER_BAN, after 3 to 6 it is
  LOSER_BAN, after 7 it is WINNER_PICK, and a successful pick then gives DONE. From a
  fresh G2PLUS state, after fewer than 3 successful bans the phase is WINNER_BAN, after
  3 it is LOSER_PICK, and a successful pick then gives DONE. The picked id is taken to be
  non-empty: \<open>advancePhase\<close> tests \<open>state.pick\<close> for truthiness.
\<close>

theorem phase_progression:
  assumes "p \<noteq> []"
  shows "(distinct bs \<and> set bs \<subseteq> set cat \<and> length bs \<le> 7 \<longrightarrow>
            ban_seq cat now (createInitialState ''G1'') bs \<noteq> None) \<and>
         (distinct bs \<and> set bs \<subseteq> set cat \<and> length bs \<le> 3 \<longrightarrow>
            ban_seq cat now (createInitialState ''G2PLUS'') bs \<noteq> None) \<and>
         (ban_seq cat now (createInitialState ''G1'') bs = Some s \<longrightarrow>
            (length bs < 3 \<longrightarrow> phase s = WINNER_BAN) \<and>
            (3 \<le> length bs \<and> length bs < 7 \<longrightarrow> phase s = LOSER_BAN) \<and>
            (length bs = 7 \<longrightarrow> phase s = WINNER_PICK \<and>
               (ok (fst (handlePick cat t s p)) \<longrightarrow>
                  phase (snd (handlePick cat t s p)) = DONE))) \<and>
         (ban_seq cat now (createInitialState ''G2PLUS'') bs = Some s \<longrightarrow>
            (length bs < 3 \<longrightarrow> phase s = WINNER_BAN) \<and>
            (length bs = 3 \<longrightarrow> phase s = LOSER_PICK \<and>
               (ok (fst (handlePick cat t s p)) \<longrightarrow>
                  phase (snd (handlePick cat t s p)) = DONE)))"
proof (intro conjI impI)
  assume "distinct bs \<and> set bs \<subseteq> set cat \<and> length bs \<le> 7"
  then show "ban_seq cat now (createInitialState ''G1'') bs \<noteq> None"
    by (intro ban_seq_fresh_defined) (simp_all add: ban_quota_def)
next
  assume "distinct bs \<and> set bs \<subseteq> set cat \<and> length bs \<le> 3"
  then show "ban_seq cat now (createInitialState ''G2PLUS'') bs \<noteq> None"
    by (intro ban_seq_fresh_defined) (simp_all add: ban_quota_def)
next
  assume a: "ban_seq cat now (createInitialState ''G1'') bs = Some s"
  note f = ban_seq_fresh_Some[OF a]
  show "length bs < 3 \<Longrightarrow> phase s = WINNER_BAN"
    using f by (simp add: phase_after_bans_def)
  show "3 \<le> length bs \<and> length bs < 7 \<Longrightarrow> phase s = LOSER_BAN"
    using f by (simp add: phase_after_bans_def)
  assume l: "length bs = 7"
  show wp: "phase s = WINNER_PICK"
    using f l by (simp add: phase_after_bans_def)
  assume "ok (fst (handlePick cat t s p))"
  then show "phase (snd (handlePick cat t s p)) = DONE"
    using pick_after_bans(2)[of s cat t p] wp f assms by simp
next
  assume a: "ban_seq cat now (createInitialState ''G2PLUS'') bs = Some s"
  note f = ban_seq_fresh_Some[OF a]
  show "length bs < 3 \<Longrightarrow> phase s = WINNER_BAN"
    using f by (simp add: phase_after_bans_def)
  assume l: "length bs = 3"
  show lp: "phase s = LOSER_PICK"
    using f l by (simp add: phase_after_bans_def)
  assume "ok (fst (handlePick cat t s p))"
  then show "phase (snd (handlePick cat t s p)) = DONE"
    using pick_after_bans(2)[of s cat t p] lp f assms by simp
qed

theorem phase_progression_witness:
  "''hb'' \<noteq> [] \<and>
   ban_seq sample_catalog 0 (createInitialState ''G1'') sample_bans = Some sample_banned_state \<and>
   length sample_bans = 7 \<and>
   phase sample_banned_state = WINNER_PICK \<and>
   ok (fst (handlePick sample_catalog 9 sample_banned_state ''hb'')) \<and>
   phase (snd (handlePick sample_catalog 9 sample_banned_state ''hb'')) = DONE"
proof -
  have n: "''hb'' \<noteq> []" by simp
  have b: "ban_seq sample_catalog 0 (createInitialState ''G1'') sample_bans
             = Some sample_banned_state"
    by (simp add: sample_bans_def sample_catalog_def sample_banned_state_def handleBan_def
        getBansRemaining_def advancePhase_def createInitialState_def success_event_def Let_def)
  have l: "length sample_bans = 7" by (simp add: sample_bans_def)
  have p: "ok (fst (handlePick sample_catalog 9 sample_banned_state ''hb''))"
    by (simp add: handlePick_def sample_catalog_def sample_banned_state_def sample_bans_def
        success_event_def)
  from phase_progression[OF n, of sample_bans sample_catalog 0 sample_banned_state 9] b l p n
  show ?thesis by simp
qed


subsection \<open>Ban quota\<close>

text \<open>
  C4. For a catalog id that is not banned yet: in phase WINNER_BAN, in either mode, Ban
  fails with "No bans remaining in this phase" exactly when \<open>bans\<close> holds at least 3
  ids, and succeeds otherwise; in phase LOSER_BAN of mode G1 it fails with that error
  exactly when \<open>bans\<close> holds at least 7 ids, and succeeds otherwise, the remaining
  allowance being 7 minus the number of bans; after ForceAdvance from WINNER_BAN in mode
  G1 the allowance is 7 minus the number of bans, so more than 4 with fewer than 3 bans.
  A reachable state in phase LOSER_BAN has mode G1, so these are all the ban phases.
\<close>

theorem quota_exhausted_iff:
  assumes "sid \<in> set cat" and "sid \<notin> set (bans s)"
  shows "(phase s = WINNER_BAN \<longrightarrow>
            (error (fst (handleBan cat now s sid)) = Some QuotaExhausted \<longleftrightarrow>
               3 \<le> length (bans s)) \<and>
            (ok (fst (handleBan cat now s sid)) \<longleftrightarrow> length (bans s) < 3)) \<and>
         (phase s = LOSER_BAN \<and> mode s = ''G1'' \<longrightarrow>
            (error (fst (handleBan cat now s sid)) = Some QuotaExhausted \<longleftrightarrow>
               7 \<le> length (bans s)) \<and>
            (ok (fst (handleBan cat now s sid)) \<longleftrightarrow> length (bans s) < 7) \<and>
            getBansRemaining s = 7 - int (length (bans s))) \<and>
         (phase s = WINNER_BAN \<and> mode s = ''G1'' \<longrightarrow>
            getBansRemaining (snd (handleForceNextPhase s)) = 7 - int (length (bans s))) \<and>
         (run cat Map.empty ms mid = Some s \<and> phase s = LOSER_BAN \<longrightarrow> mode s = ''G1'')"
proof -
  have "run cat Map.empty ms mid = Some s \<and> phase s = LOSER_BAN \<longrightarrow> mode s = ''G1''"
    by (auto dest: reachable_strong simp: strong_invariant_def)
  with assms show ?thesis
    by (auto simp: handleBan_def getBansRemaining_def failure_def success_event_def Let_def
        handleForceNextPhase_def transitions_def)
qed

theorem quota_exhausted_iff_witness:
  "''sv'' \<in> set sample_catalog \<and> ''sv'' \<notin> set [''bf'', ''sbf'', ''fd''] \<and>
   error (fst (handleBan sample_catalog 4
      \<lparr>mode = ''G2PLUS'', phase = WINNER_BAN, bans = [''bf'', ''sbf'', ''fd''], pick = None,
       history = []\<rparr> ''sv'')) = Some QuotaExhausted \<and>
   \<not> ok (fst (handleBan sample_catalog 4
      \<lparr>mode = ''G2PLUS'', phase = WINNER_BAN, bans = [''bf'', ''sbf'', ''fd''], pick = None,
       history = []\<rparr> ''sv'')) \<and>
   run sample_catalog Map.empty [Action 1 None (plain_request ''FORCE_NEXT_PHASE'')] ''default''
     = Some (snd (handleForceNextPhase (createInitialState ''G1''))) \<and>
   phase (snd (handleForceNextPhase (createInitialState ''G1''))) = LOSER_BAN \<and>
   getBansRemaining (snd (handleForceNextPhase (createInitialState ''G1''))) = 7 \<and>
   ok (fst (handleBan sample_catalog 4
      (snd (handleForceNextPhase (createInitialState ''G1''))) ''sv''))"
proof -
  have a: "''sv'' \<in> set sample_catalog" by (simp add: sample_catalog_def)
  have b: "''sv'' \<notin> set (bans \<lparr>mode = ''G2PLUS'', phase = WINNER_BAN,
      bans = [''bf'', ''sbf'', ''fd''], pick = None, history = []\<rparr>)" by simp
  have f: "snd (handleForceNextPhase (createInitialState ''G1'')) =
      \<lparr>mode = ''G1'', phase = LOSER_BAN, bans = [], pick = None,
       history = [\<lparr>action = FORCE_PHASE, stageId = None, prevPhase = WINNER_BAN\<rparr>]\<rparr>"
    by (simp add: handleForceNextPhase_def transitions_def createInitialState_def)
  have c: "''sv'' \<notin> set (bans (snd (handleForceNextPhase (createInitialState ''G1''))))"
    by (simp add: f)
  have r: "run sample_catalog Map.empty
      [Action 1 None (plain_request ''FORCE_NEXT_PHASE'')] ''default''
     = Some (snd (handleForceNextPhase (createInitialState ''G1'')))"
    by (simp add: f)
      (simp add: onAction_def resolveMatchId_def getState_def route_def plain_request_def
        handleForceNextPhase_def transitions_def createInitialState_def
        getComputedState_def success_def failure_def Let_def)
  from quota_exhausted_iff[OF a b, where now = 4]
    quota_exhausted_iff[OF a c, where now = 4] a r
  show ?thesis by (simp add: f)
qed

subsection \<open>Failures change nothing\<close>

lemma handler_failure_unchanged:
  "\<not> ok (fst (handleBan cat now s sid)) \<Longrightarrow> snd (handleBan cat now s sid) = s"
  "\<not> ok (fst (handlePick cat now s sid)) \<Longrightarrow> snd (handlePick cat now s sid) = s"
  "\<not> ok (fst (handleUndo s)) \<Longrightarrow> snd (handleUndo s) = s"
  "\<not> ok (fst (handleForceNextPhase s)) \<Longrightarrow> snd (handleForceNextPhase s) = s"
  "\<not> ok (handleSetMode s m) \<Longrightarrow> newState (handleSetMode s m) = None"
  by (auto simp: handleBan_def handlePick_def handleUndo_def handleForceNextPhase_def
      handleSetMode_def failure_def success_def success_event_def success_state_def Let_def
      split: if_splits option.splits)

lemma getState_lookup: "snd (getState st mid) mid = Some (fst (getState st mid))"
  by (simp add: getState_def split: option.splits)

lemma getState_idem: "fst (getState (snd (getState st mid)) k) = fst (getState st k)"
  by (simp add: getState_def split: option.splits)

lemma route_failure_unchanged:
  assumes "st1 matchId = Some s" and "\<not> ok (fst (route cat now st1 matchId s req))"
  shows "snd (route cat now st1 matchId s req) = st1"
proof -
  have same: "st1(matchId \<mapsto> s) = st1" using assms(1) by (rule map_upd_triv)
  show ?thesis
    using assms(2) handler_failure_unchanged(1)[of cat now s "r_stageId req"]
      handler_failure_unchanged(2)[of cat now s "r_stageId req"]
      handler_failure_unchanged(3)[of s] handler_failure_unchanged(4)[of s]
      handler_failure_unchanged(5)[of s "r_mode req"]
    by (auto simp: route_def Let_def split_beta same handleReset_def success_def failure_def
        split: if_splits option.splits)
qed

text \<open>
  C5. When Ban, Pick, Undo or ForceAdvance returns a failure, the state object is
  unchanged; when SetMode returns a failure it gives no new state. When the action
  handler reports a failure to the sender, that report is the only message it emits (no
  state update, no event), the store is the one left by looking the match up, and every
  match has the state it had before.
\<close>

theorem failure_is_atomic:
  "(\<not> ok (fst (handleBan cat now s sid)) \<longrightarrow> snd (handleBan cat now s sid) = s) \<and>
   (\<not> ok (fst (handlePick cat now s sid)) \<longrightarrow> snd (handlePick cat now s sid) = s) \<and>
   (\<not> ok (fst (handleUndo s)) \<longrightarrow> snd (handleUndo s) = s) \<and>
   (\<not> ok (fst (handleForceNextPhase s)) \<longrightarrow> snd (handleForceNextPhase s) = s) \<and>
   (\<not> ok (handleSetMode s m) \<longrightarrow> newState (handleSetMode s m) = None) \<and>
   (ActionResult t False e \<in> set (snd (onAction cat now cur st req)) \<longrightarrow>
      snd (onAction cat now cur st req) = [ActionResult t False e] \<and>
      fst (onAction cat now cur st req) =
        snd (getState st (resolveMatchId (r_matchId req) cur)) \<and>
      fst (getState (fst (onAction cat now cur st req)) k) = fst (getState st k))"
proof -
  define matchId where "matchId = resolveMatchId (r_matchId req) cur"
  define s0 where "s0 = fst (getState st matchId)"
  define st1 where "st1 = snd (getState st matchId)"
  define r where "r = fst (route cat now st1 matchId s0 req)"
  define st2 where "st2 = snd (route cat now st1 matchId s0 req)"
  have look: "st1 matchId = Some s0" by (simp add: st1_def s0_def getState_lookup)
  have out: "snd (onAction cat now cur st req) =
      (if ok r then [ActionResult (r_type req) True (error r),
                      StateUpdate matchId (fst (getComputedState cat st2 matchId))] @
                    (case event r of Some ev \<Rightarrow> [EventPush matchId ev] | None \<Rightarrow> [])
       else [ActionResult (r_type req) False (error r)])"
    unfolding r_def st2_def s0_def st1_def matchId_def
    by (simp add: onAction_def Let_def split_beta)
  have sto: "\<not> ok r \<Longrightarrow> fst (onAction cat now cur st req) = st2"
    unfolding r_def st2_def s0_def st1_def matchId_def
    by (simp add: onAction_def Let_def split_beta)
  have disp: "ActionResult t False e \<in> set (snd (onAction cat now cur st req)) \<longrightarrow>
      snd (onAction cat now cur st req) = [ActionResult t False e] \<and>
      fst (onAction cat now cur st req) = st1 \<and>
      fst (getState (fst (onAction cat now cur st req)) k) = fst (getState st k)"
  proof
    assume mem: "ActionResult t False e \<in> set (snd (onAction cat now cur st req))"
    have nok: "\<not> ok r"
    proof
      assume "ok r"
      with mem out show False by (auto split: option.splits)
    qed
    with mem out have o: "snd (onAction cat now cur st req) = [ActionResult t False e]"
      by auto
    from nok have "\<not> ok (fst (route cat now st1 matchId s0 req))" by (simp add: r_def)
    with look have "st2 = st1"
      unfolding st2_def by (rule route_failure_unchanged)
    with sto[OF nok] have s1: "fst (onAction cat now cur st req) = st1" by simp
    have "fst (getState st1 k) = fst (getState st k)"
      unfolding st1_def by (rule getState_idem)
    with o s1 show "snd (onAction cat now cur st req) = [ActionResult t False e] \<and>
      fst (onAction cat now cur st req) = st1 \<and>
      fst (getState (fst (onAction cat now cur st req)) k) = fst (getState st k)" by simp
  qed
  show ?thesis
    using disp by (simp add: handler_failure_unchanged st1_def matchId_def getState_idem)
qed

theorem failure_is_atomic_witness:
  "\<not> ok (fst (handlePick sample_catalog 2 (createInitialState ''G1'') ''fd'')) \<and>
   snd (handlePick sample_catalog 2 (createInitialState ''G1'') ''fd'')
     = createInitialState ''G1'' \<and>
   snd (onAction sample_catalog 2 None Map.empty (pick_request ''fd''))
     = [ActionResult ''PICK'' False (Some (WrongPhase PICK WINNER_BAN))] \<and>
   fst (getState (fst (onAction sample_catalog 2 None Map.empty (pick_request ''fd''))) ''m'')
     = createInitialState ''G1''"
proof -
  have f: "\<not> ok (fst (handlePick sample_catalog 2 (createInitialState ''G1'') ''fd''))"
    by (simp add: handlePick_def sample_catalog_def createInitialState_def failure_def)
  have o: "ActionResult ''PICK'' False (Some (WrongPhase PICK WINNER_BAN))
      \<in> set (snd (onAction sample_catalog 2 None Map.empty (pick_request ''fd'')))"
    by (simp add: onAction_def resolveMatchId_def getState_def route_def pick_request_def
        handlePick_def sample_catalog_def createInitialState_def failure_def Let_def)
  from failure_is_atomic[of sample_catalog 2 "createInitialState ''G1''" "''fd''" _
      "''PICK''" "Some (WrongPhase PICK WINNER_BAN)" None Map.empty "pick_request ''fd''"
      "''m''"] f o
  show ?thesis by (simp add: getState_def)
qed

subsection \<open>Forced phase change\<close>

text \<open>
  C6. ForceAdvance in phase DONE fails with "Cannot advance phase" and leaves the state
  as it was. ForceAdvance in phase WINNER_BAN of mode G1 succeeds whatever \<open>bans\<close>
  holds: the phase becomes LOSER_BAN and a FORCE_PHASE entry recording WINNER_BAN, with no
  stage id, is pushed on the history.
\<close>

theorem force_advance:
  "(phase s = DONE \<longrightarrow> handleForceNextPhase s = (failure CannotAdvance, s)) \<and>
   (mode s = ''G1'' \<and> phase s = WINNER_BAN \<longrightarrow>
      handleForceNextPhase s =
        (success, s\<lparr>phase := LOSER_BAN, history := history s @
            [\<lparr>action = FORCE_PHASE, stageId = None, prevPhase = WINNER_BAN\<rparr>]\<rparr>))"
  by (auto simp: handleForceNextPhase_def transitions_def Let_def)

theorem force_advance_witness:
  "phase (createInitialState ''G1'') = WINNER_BAN \<and> mode (createInitialState ''G1'') = ''G1'' \<and>
   handleForceNextPhase (createInitialState ''G1'') =
     (success, \<lparr>mode = ''G1'', phase = LOSER_BAN, bans = [], pick = None,
        history = [\<lparr>action = FORCE_PHASE, stageId = None, prevPhase = WINNER_BAN\<rparr>]\<rparr>) \<and>
   handleForceNextPhase (sample_banned_state\<lparr>phase := DONE\<rparr>) =
     (failure CannotAdvance, sample_banned_state\<lparr>phase := DONE\<rparr>)"
  using force_advance[of "createInitialState ''G1''"]
    force_advance[of "sample_banned_state\<lparr>phase := DONE\<rparr>"]
  by (simp add: createInitialState_def)

subsection \<open>Banned ids\<close>

text \<open>
  C7. In every phase, Ban of an id that is in \<open>bans\<close> fails and Pick of it fails, and
  the state is unchanged. The error does not depend on the phase: for a catalog id it is
  "Stage already banned" for Ban and "Cannot pick banned stage" for Pick, so the banned
  check comes before the phase check (an id outside the catalog gives "Invalid stage",
  the first check of both handlers).
\<close>

theorem banned_id_rejected_in_every_phase:
  assumes "sid \<in> set (bans s)"
  shows "handleBan cat now (s\<lparr>phase := ph\<rparr>) sid =
           (failure (if sid \<in> set cat then AlreadyBanned sid else InvalidItem sid),
            s\<lparr>phase := ph\<rparr>) \<and>
         handlePick cat now (s\<lparr>phase := ph\<rparr>) sid =
           (failure (if sid \<in> set cat then BannedItem sid else InvalidItem sid),
            s\<lparr>phase := ph\<rparr>)"
  using assms by (simp add: handleBan_def handlePick_def)

theorem banned_id_rejected_in_every_phase_witness:
  "''fd'' \<in> set (bans sample_banned_state) \<and>
   handleBan sample_catalog 3 (sample_banned_state\<lparr>phase := DONE\<rparr>) ''fd'' =
     (failure (AlreadyBanned ''fd''), sample_banned_state\<lparr>phase := DONE\<rparr>) \<and>
   handlePick sample_catalog 3 (sample_banned_state\<lparr>phase := DONE\<rparr>) ''fd'' =
     (failure (BannedItem ''fd''), sample_banned_state\<lparr>phase := DONE\<rparr>)"
proof -
  have h: "''fd'' \<in> set (bans sample_banned_state)"
    by (simp add: sample_banned_state_def sample_bans_def)
  have c: "''fd'' \<in> set sample_catalog" by (simp add: sample_catalog_def)
  from banned_id_rejected_in_every_phase[OF h, of sample_catalog 3 DONE] h c
  show ?thesis by simp
qed

subsection \<open>Reset\<close>

text \<open>
  C8. Reset succeeds at every store and match id, and leaves for the match a fresh state
  (phase WINNER_BAN, no bans, no pick, empty history) whose mode is the mode the match
  had before; the action handler does the same for a RESET message and reports success.
\<close>

theorem reset_keeps_mode:
  "fst (handleReset st mid) = success \<and> ok (fst (handleReset st mid)) \<and>
   snd (handleReset st mid) mid =
     Some \<lparr>mode = mode (fst (getState st mid)), phase = WINNER_BAN, bans = [], pick = None,
           history = []\<rparr> \<and>
   (r_type req = ''RESET'' \<longrightarrow>
      fst (onAction cat now cur st req) (resolveMatchId (r_matchId req) cur) =
        Some (createInitialState
          (mode (fst (getState st (resolveMatchId (r_matchId req) cur))))) \<and>
      hd (snd (onAction cat now cur st req)) = ActionResult ''RESET'' True None)"
  by (auto simp: handleReset_def Let_def split_beta createInitialState_def success_def
      onAction_def route_def getState_def getComputedState_def split: option.splits)

theorem reset_keeps_mode_witness:
  "r_type (plain_request ''RESET'') = ''RESET'' \<and>
   fst (onAction sample_catalog 8 None
      [''default'' \<mapsto> sample_banned_state\<lparr>mode := ''G2PLUS''\<rparr>] (plain_request ''RESET''))
      ''default''
     = Some \<lparr>mode = ''G2PLUS'', phase = WINNER_BAN, bans = [], pick = None, history = []\<rparr>"
  using reset_keeps_mode[of "[''default'' \<mapsto> sample_banned_state\<lparr>mode := ''G2PLUS''\<rparr>]"
      "''default''" "plain_request ''RESET''" sample_catalog 8 None]
  by (simp add: plain_request_def resolveMatchId_def getState_def createInitialState_def)

subsection \<open>Mode change\<close>

text \<open>
  C9. SetMode with a mode other than G1 and G2PLUS fails with "Invalid mode" and gives no
  new state; with G1 or G2PLUS it succeeds and gives a fresh state of that mode (phase
  WINNER_BAN, no bans, no pick, empty history), whatever the state was. For a SET_MODE
  message the action handler stores that fresh state for the match, and for an
  unrecognised mode it only reports the failure and every match keeps its state.
\<close>

theorem set_mode:
  "(m \<noteq> ''G1'' \<and> m \<noteq> ''G2PLUS'' \<longrightarrow> handleSetMode s m = failure (InvalidMode m)) \<and>
   (m = ''G1'' \<or> m = ''G2PLUS'' \<longrightarrow>
      handleSetMode s m = success_state
        \<lparr>mode = m, phase = WINNER_BAN, bans = [], pick = None, history = []\<rparr>) \<and>
   (r_type req = ''SET_MODE'' \<longrightarrow>
      (if r_mode req = ''G1'' \<or> r_mode req = ''G2PLUS''
       then fst (onAction cat now cur st req) (resolveMatchId (r_matchId req) cur) =
              Some \<lparr>mode = r_mode req, phase = WINNER_BAN, bans = [], pick = None,
                 history = []\<rparr>
       else snd (onAction cat now cur st req) =
              [ActionResult ''SET_MODE'' False (Some (InvalidMode (r_mode req)))] \<and>
            fst (getState (fst (onAction cat now cur st req)) k) = fst (getState st k)))"
  by (auto simp: handleSetMode_def createInitialState_def success_state_def failure_def
      onAction_def route_def getState_def getComputedState_def Let_def split_beta
      split: option.splits)

theorem set_mode_witness:
  "handleSetMode sample_banned_state ''G3'' = failure (InvalidMode ''G3'') \<and>
   handleSetMode sample_banned_state ''G2PLUS'' = success_state
     \<lparr>mode = ''G2PLUS'', phase = WINNER_BAN, bans = [], pick = None, history = []\<rparr> \<and>
   fst (onAction sample_catalog 8 None [''default'' \<mapsto> sample_banned_state]
      (mode_request ''G2PLUS'')) ''default''
     = Some \<lparr>mode = ''G2PLUS'', phase = WINNER_BAN, bans = [], pick = None, history = []\<rparr>"
  using set_mode[of "''G3''" sample_banned_state]
    set_mode[of "''G2PLUS''" sample_banned_state "mode_request ''G2PLUS''" sample_catalog 8 None
      "[''default'' \<mapsto> sample_banned_state]"]
  by (simp add: mode_request_def resolveMatchId_def)

subsection \<open>Available stages\<close>

lemma length_filter_notin:
  "distinct cat \<Longrightarrow> distinct bs \<Longrightarrow> set bs \<subseteq> set cat \<Longrightarrow>
     length (filter (\<lambda>i. i \<notin> set bs) cat) = length cat - length bs"
proof -
  assume d: "distinct cat" "distinct bs" and sub: "set bs \<subseteq> set cat"
  have "length (filter (\<lambda>i. i \<notin> set bs) cat) = card (set (filter (\<lambda>i. i \<notin> set bs) cat))"
    using d(1) distinct_card[of "filter (\<lambda>i. i \<notin> set bs) cat"] by simp
  also have "set (filter (\<lambda>i. i \<notin> set bs) cat) = set cat - set bs"
    by auto
  also have "card (set cat - set bs) = card (set cat) - card (set bs)"
    using sub by (simp add: card_Diff_subset)
  also have "\<dots> = length cat - length bs"
    using d by (simp add: distinct_card)
  finally show ?thesis .
qed

text \<open>
  C10. In the computed state, \<open>available\<close> is the catalog with the ids of \<open>bans\<close>
  filtered out: a subsequence of the catalog, in catalog order, holding exactly the ids
  that are not banned. When the catalog ids are unique, \<open>bans\<close> holds no id twice and
  only catalog ids, its length is the catalog size minus the number of bans.
\<close>

theorem available_is_catalog_minus_bans:
  "v_available (fst (getComputedState cat st mid)) =
     filter (\<lambda>i. i \<notin> set (v_bans (fst (getComputedState cat st mid)))) cat \<and>
   subseq (v_available (fst (getComputedState cat st mid))) cat \<and>
   set (v_available (fst (getComputedState cat st mid))) =
     set cat - set (v_bans (fst (getComputedState cat st mid))) \<and>
   (distinct cat \<and> distinct (v_bans (fst (getComputedState cat st mid))) \<and>
    set (v_bans (fst (getComputedState cat st mid))) \<subseteq> set cat \<longrightarrow>
      length (v_available (fst (getComputedState cat st mid))) =
        length cat - length (v_bans (fst (getComputedState cat st mid))))"
  by (auto simp: getComputedState_def Let_def split_beta getAvailableStages_def
      length_filter_notin)

theorem available_is_catalog_minus_bans_witness:
  "distinct sample_catalog \<and>
   v_bans (fst (getComputedState sample_catalog [''m'' \<mapsto> sample_banned_state] ''m''))
     = sample_bans \<and>
   distinct sample_bans \<and> set sample_bans \<subseteq> set sample_catalog \<and>
   v_available (fst (getComputedState sample_catalog [''m'' \<mapsto> sample_banned_state] ''m''))
     = [''hb'', ''kalos''] \<and>
   length (v_available
      (fst (getComputedState sample_catalog [''m'' \<mapsto> sample_banned_state] ''m'')))
     = length sample_catalog - length sample_bans"
proof -
  have b: "v_bans (fst (getComputedState sample_catalog [''m'' \<mapsto> sample_banned_state] ''m''))
     = sample_bans"
    by (simp add: getComputedState_def getState_def sample_banned_state_def)
  have d: "distinct sample_catalog" "distinct sample_bans"
    "set sample_bans \<subseteq> set sample_catalog"
    by (simp_all add: sample_catalog_def sample_bans_def)
  from available_is_catalog_minus_bans[of sample_catalog
      "[''m'' \<mapsto> sample_banned_state]" "''m''"] b d
  show ?thesis by (simp add: sample_catalog_def sample_bans_def)
qed

end
